theory Spec2Isabelle
  imports Complex_Main "HOL-Library.Sublist"
begin

section \<open>Overlay renderer: \<open>PDFWatermarker.create_watermark_pdf\<close>\<close>

text \<open>
  Python floats are modelled as reals and Python strings as lists of characters.
  The font metrics of the text-layout library are not part of the repository: the
  per-character advance table of the font is a parameter \<open>cw\<close> (units of 1/1000 em),
  and the library's \<open>stringWidth\<close> is the sum of the advances times \<open>0.001 * size\<close>.
\<close>

datatype error = ZeroDivisionError | PdfReadError

definition stringWidth :: "(char \<Rightarrow> nat) \<Rightarrow> string \<Rightarrow> nat \<Rightarrow> real" where
  "stringWidth cw text font_size = real (sum_list (map cw text)) * 0.001 * real font_size"

definition max_font_size :: nat where "max_font_size = 24"
definition min_font_size :: nat where "min_font_size = 8"
definition rotation_angle :: real where "rotation_angle = 30"
definition rotation_rad :: real where "rotation_rad = rotation_angle * pi / 180"
definition margin_factor :: real where "margin_factor = 0.1"

definition usable_width :: "real \<Rightarrow> real" where
  "usable_width width = width * (1 - 2 * margin_factor)"

text \<open>The factor is computed once, before the search, with \<open>font_size = max_font_size\<close>.\<close>

definition rotation_width_factor :: "real \<Rightarrow> real" where
  "rotation_width_factor width =
     \<bar>cos rotation_rad\<bar> + \<bar>sin rotation_rad\<bar> * (real max_font_size / width)"

definition max_allowed_width :: "real \<Rightarrow> real" where
  "max_allowed_width width = usable_width width / rotation_width_factor width"

text \<open>
  The font-size search
  \<^verbatim>\<open>while text_width > max_allowed_width and font_size > min_font_size\<close>;
  the loop state is \<open>(font_size, text_width)\<close>.
\<close>

function shrink_font :: "(char \<Rightarrow> nat) \<Rightarrow> string \<Rightarrow> real \<Rightarrow> nat \<Rightarrow> real \<Rightarrow> nat \<times> real" where
  "shrink_font cw text maxw font_size text_width =
     (if text_width > maxw \<and> font_size > min_font_size
      then shrink_font cw text maxw (font_size - 1) (stringWidth cw text (font_size - 1))
      else (font_size, text_width))"
  by pat_completeness auto
termination
  by (relation "measure (\<lambda>(cw, text, maxw, font_size, text_width). font_size)")
     (auto simp: min_font_size_def)

text \<open>One truncation step: \<^verbatim>\<open>truncated_text[:-3] + "..."\<close>.\<close>

definition truncate_step :: "string \<Rightarrow> string" where
  "truncate_step t = take (length t - 3) t @ ''...''"

text \<open>
  The truncation loop
  \<^verbatim>\<open>while text_width > max_allowed_width and len(truncated_text) > 10\<close>;
  the loop state is \<open>(truncated_text, text_width)\<close>. Nothing in the source bounds the
  number of iterations, so the loop is a partial function: \<open>None\<close> is "does not return".
\<close>

partial_function (option) truncate_loop ::
  "(char \<Rightarrow> nat) \<Rightarrow> nat \<Rightarrow> real \<Rightarrow> string \<times> real \<Rightarrow> (string \<times> real) option" where
  "truncate_loop cw font_size maxw st =
     (if snd st > maxw \<and> length (fst st) > 10
      then truncate_loop cw font_size maxw
             (truncate_step (fst st), stringWidth cw (truncate_step (fst st)) font_size)
      else Some st)"

record overlay =
  ov_width :: real
  ov_height :: real
  ov_font_size :: nat
  ov_text :: string
  ov_text_width :: real
  ov_translate_x :: real
  ov_translate_ys :: "real list"

definition place_text :: "real \<Rightarrow> real \<Rightarrow> nat \<Rightarrow> string \<Rightarrow> real \<Rightarrow> overlay" where
  "place_text width height font_size watermark_text text_width =
     (let text_height = real font_size;
          center_x = width / 2;
          text_center_offset_x = text_width / 2;
          text_center_offset_y = text_height / 2;
          rotated_offset_x = text_center_offset_x * cos rotation_rad
                             - text_center_offset_y * sin rotation_rad;
          rotated_offset_y = text_center_offset_x * sin rotation_rad
                             + text_center_offset_y * cos rotation_rad;
          translate_x = center_x - rotated_offset_x;
          y_positions = [height * 0.2, height * 0.4, height * 0.6, height * 0.8]
      in \<lparr> ov_width = width, ov_height = height, ov_font_size = font_size,
           ov_text = watermark_text, ov_text_width = text_width,
           ov_translate_x = translate_x,
           ov_translate_ys = map (\<lambda>y. y - rotated_offset_y) y_positions \<rparr>)"

text \<open>
  The font chosen by the search and the width measured at it (the values of
  \<open>font_size\<close> and \<open>text_width\<close> after the first loop).
\<close>

definition chosen_font :: "(char \<Rightarrow> nat) \<Rightarrow> string \<Rightarrow> real \<Rightarrow> nat \<times> real" where
  "chosen_font cw text width =
     shrink_font cw text (max_allowed_width width) max_font_size
       (stringWidth cw text max_font_size)"

text \<open>
  The whole renderer. Float division raises \<open>ZeroDivisionError\<close> on a zero divisor;
  the result is \<open>None\<close> when the truncation loop does not return.
\<close>

definition create_watermark_pdf ::
  "(char \<Rightarrow> nat) \<Rightarrow> string \<Rightarrow> real \<Rightarrow> real \<Rightarrow> (error + overlay) option" where
  "create_watermark_pdf cw text width height =
     (if width = 0 \<or> rotation_width_factor width = 0 then Some (Inl ZeroDivisionError)
      else
        let maxw = max_allowed_width width;
            (font_size, text_width) = chosen_font cw text width
        in if text_width > maxw
           then (case truncate_loop cw font_size maxw (text, text_width) of
                   None \<Rightarrow> None
                 | Some (truncated_text, text_width') \<Rightarrow>
                     Some (Inr (place_text width height font_size truncated_text text_width')))
           else Some (Inr (place_text width height font_size text text_width)))"

section \<open>Inputs used in the evaluations\<close>

text \<open>
  The advance widths (1/1000 em) of the bold sans-serif face the renderer selects, for
  the capitals, the space, the period and the hyphen, as the font's metrics file lists
  them. They are only used to evaluate the renderer on concrete texts; every general
  theorem below holds for an arbitrary table \<open>cw\<close>.
\<close>

definition helvetica_bold_table :: "(char \<times> nat) list" where
  "helvetica_bold_table =
     [(CHR '' '', 278), (CHR ''.'', 278), (CHR ''-'', 333),
      (CHR ''A'', 722), (CHR ''B'', 722), (CHR ''C'', 722), (CHR ''D'', 722),
      (CHR ''E'', 667), (CHR ''F'', 611), (CHR ''G'', 778), (CHR ''H'', 722),
      (CHR ''I'', 278), (CHR ''J'', 556), (CHR ''K'', 722), (CHR ''L'', 611),
      (CHR ''M'', 833), (CHR ''N'', 722), (CHR ''O'', 778), (CHR ''P'', 667),
      (CHR ''Q'', 778), (CHR ''R'', 722), (CHR ''S'', 667), (CHR ''T'', 611),
      (CHR ''U'', 722), (CHR ''V'', 667), (CHR ''W'', 944), (CHR ''X'', 667),
      (CHR ''Y'', 667), (CHR ''Z'', 611)]"

definition helvetica_bold :: "char \<Rightarrow> nat" where
  "helvetica_bold c = (case map_of helvetica_bold_table c of Some w \<Rightarrow> w | None \<Rightarrow> 556)"

text \<open>The default watermark text of \<open>PDFWatermarker.__init__\<close>.\<close>

definition default_watermark_text :: string where
  "default_watermark_text = ''DOCUMENT RESERVE A LA LOCATION''"

section \<open>Page watermark compositor: \<open>PDFWatermarker.watermark_pdf\<close>\<close>

text \<open>
  A page as the reader hands it over: its media box may be unreadable (\<open>None\<close>, the
  access raises), its content stream is opaque. A page as the writer holds it has the
  box that was read, the content, the overlays merged onto it and its annotations.
\<close>

record raw_page =
  rp_mediabox :: "(real \<times> real) option"
  rp_content :: string

record link_annotation =
  la_rect :: "real \<times> real \<times> real \<times> real"
  la_target_page_index :: int

record pdf_page =
  pg_width :: real
  pg_height :: real
  pg_content :: string
  pg_overlays :: "overlay list"
  pg_annots :: "link_annotation list"

definition merge_page :: "raw_page \<Rightarrow> real \<Rightarrow> real \<Rightarrow> overlay \<Rightarrow> pdf_page" where
  "merge_page p page_width page_height watermark_page =
     \<lparr> pg_width = page_width, pg_height = page_height, pg_content = rp_content p,
       pg_overlays = [watermark_page], pg_annots = [] \<rparr>"

text \<open>
  The loop over \<open>reader.pages\<close>; \<open>writer\<close> is the list of pages added so far. The first
  exception leaves the loop (\<open>Inl\<close>); \<open>None\<close> is a renderer that does not return.
\<close>

fun watermark_pages ::
  "(char \<Rightarrow> nat) \<Rightarrow> string \<Rightarrow> pdf_page list \<Rightarrow> raw_page list \<Rightarrow> (error + pdf_page list) option" where
  "watermark_pages cw text writer [] = Some (Inr writer)"
| "watermark_pages cw text writer (p # ps) =
     (case rp_mediabox p of
        None \<Rightarrow> Some (Inl PdfReadError)
      | Some (page_width, page_height) \<Rightarrow>
          (case create_watermark_pdf cw text page_width page_height of
             None \<Rightarrow> None
           | Some (Inl e) \<Rightarrow> Some (Inl e)
           | Some (Inr watermark_page) \<Rightarrow>
               watermark_pages cw text
                 (writer @ [merge_page p page_width page_height watermark_page]) ps))"

text \<open>
  \<open>watermark_pdf\<close>: the input file may be unreadable (\<open>None\<close>). \<open>Some (Inr pages)\<close> is
  \<^verbatim>\<open>return True\<close> with \<open>pages\<close> written to the output path, \<open>Some (Inl e)\<close> is the
  \<^verbatim>\<open>except Exception\<close> branch, \<^verbatim>\<open>return False\<close>.
\<close>

definition watermark_pdf ::
  "(char \<Rightarrow> nat) \<Rightarrow> string \<Rightarrow> raw_page list option \<Rightarrow> (error + pdf_page list) option" where
  "watermark_pdf cw text input =
     (case input of
        None \<Rightarrow> Some (Inl PdfReadError)
      | Some pages \<Rightarrow> watermark_pages cw text [] pages)"

section \<open>Orchestrator: the watermarking loop of \<open>process_folder\<close>\<close>

record src_file =
  sf_folder :: string
  sf_name :: string
  sf_pdf :: "raw_page list option"

text \<open>\<open>Path.stem\<close>: the name without its last suffix.\<close>

definition py_stem :: "string \<Rightarrow> string" where
  "py_stem name =
     (let suffix_len = length (takeWhile (\<lambda>c. c \<noteq> CHR ''.'') (rev name));
          i = length name - suffix_len - 1
      in if CHR ''.'' \<in> set name \<and> 0 < i \<and> 0 < suffix_len then take i name else name)"

definition output_filename :: "src_file \<Rightarrow> string" where
  "output_filename f = sf_folder f @ ''_'' @ py_stem (sf_name f) @ ''_watermarked.pdf''"

text \<open>
  The loop over the files found; \<open>watermarked_pdfs\<close> holds the output name and the pages
  written for every file whose watermarking returned \<open>True\<close>.
\<close>

fun process_files ::
  "(char \<Rightarrow> nat) \<Rightarrow> string \<Rightarrow> (string \<times> pdf_page list) list \<Rightarrow> src_file list
     \<Rightarrow> (string \<times> pdf_page list) list option" where
  "process_files cw text watermarked_pdfs [] = Some watermarked_pdfs"
| "process_files cw text watermarked_pdfs (f # fs) =
     (if output_filename f \<in> set (map fst watermarked_pdfs)
      then process_files cw text watermarked_pdfs fs
      else (case watermark_pdf cw text (sf_pdf f) of
              None \<Rightarrow> None
            | Some (Inl e) \<Rightarrow> process_files cw text watermarked_pdfs fs
            | Some (Inr pages) \<Rightarrow>
                process_files cw text (watermarked_pdfs @ [(output_filename f, pages)]) fs))"

section \<open>Document info: the analysis loop of \<open>PDFWatermarker.combine_pdfs_with_toc\<close>\<close>

subsection \<open>The string methods used\<close>

text \<open>\<^verbatim>\<open>s.split(sep)[0]\<close>: the text before the first separator.\<close>

definition split_first :: "char \<Rightarrow> string \<Rightarrow> string" where
  "split_first sep s = takeWhile (\<lambda>c. c \<noteq> sep) s"

text \<open>
  \<^verbatim>\<open>s.replace(old, "")\<close> for a non-empty \<open>old\<close>: every non-overlapping occurrence,
  found from the left, is deleted.
\<close>

function remove_all :: "string \<Rightarrow> string \<Rightarrow> string" where
  "remove_all old [] = []"
| "remove_all old (c # cs) =
     (if old \<noteq> [] \<and> prefix old (c # cs)
      then remove_all old (drop (length old) (c # cs))
      else c # remove_all old cs)"
  by pat_completeness auto
termination
  by (relation "measure (\<lambda>(old, s). length s)") (auto simp: Suc_le_eq)

text \<open>\<^verbatim>\<open>s.replace('_', ' ')\<close>.\<close>

definition underscores_to_spaces :: "string \<Rightarrow> string" where
  "underscores_to_spaces s = map (\<lambda>c. if c = CHR ''_'' then CHR '' '' else c) s"

text \<open>
  \<^verbatim>\<open>s.title()\<close> on ASCII text: a letter that follows a letter is lower-cased, any
  other letter is upper-cased, all other characters are kept.
\<close>

definition is_upper :: "char \<Rightarrow> bool" where
  "is_upper c = ((65::nat) \<le> of_char c \<and> of_char c \<le> (90::nat))"

definition is_lower :: "char \<Rightarrow> bool" where
  "is_lower c = ((97::nat) \<le> of_char c \<and> of_char c \<le> (122::nat))"

definition to_upper :: "char \<Rightarrow> char" where
  "to_upper c = (if is_lower c then char_of (of_char c - (32::nat)) else c)"

definition to_lower :: "char \<Rightarrow> char" where
  "to_lower c = (if is_upper c then char_of (of_char c + (32::nat)) else c)"

fun title_from :: "bool \<Rightarrow> string \<Rightarrow> string" where
  "title_from previous_is_cased [] = []"
| "title_from previous_is_cased (c # cs) =
     (if is_upper c \<or> is_lower c
      then (if previous_is_cased then to_lower c else to_upper c) # title_from True cs
      else c # title_from False cs)"

definition py_title :: "string \<Rightarrow> string" where
  "py_title s = title_from False s"

subsection \<open>Names derived from a watermarked file name\<close>

definition folder_name_of :: "string \<Rightarrow> string" where
  "folder_name_of name = split_first CHR ''_'' name"

definition doc_name_of :: "string \<Rightarrow> string" where
  "doc_name_of name =
     (let folder_name = folder_name_of name;
          filename = py_stem name;
          clean_name = remove_all ''_watermarked'' (remove_all (folder_name @ ''_'') filename);
          doc_name = (if CHR ''-'' \<in> set clean_name then split_first CHR ''-'' clean_name
                      else clean_name)
      in py_title (underscores_to_spaces doc_name))"

subsection \<open>The running page counter\<close>

record wfile =
  wf_name :: string
  wf_pages :: "pdf_page list option"

record doc_info =
  folder :: string
  document :: string
  page :: int
  num_pages :: nat

text \<open>
  The loop over \<open>pdf_paths\<close>; a file the reader rejects (\<open>None\<close>) is logged and skipped,
  with \<open>current_page\<close> unchanged.
\<close>

fun analyze_loop :: "int \<Rightarrow> doc_info list \<Rightarrow> wfile list \<Rightarrow> doc_info list \<times> int" where
  "analyze_loop current_page document_info [] = (document_info, current_page)"
| "analyze_loop current_page document_info (pdf_path # rest) =
     (case wf_pages pdf_path of
        None \<Rightarrow> analyze_loop current_page document_info rest
      | Some pages \<Rightarrow>
          analyze_loop (current_page + int (length pages))
            (document_info @
               [\<lparr> folder = folder_name_of (wf_name pdf_path),
                  document = doc_name_of (wf_name pdf_path),
                  page = current_page,
                  num_pages = length pages \<rparr>])
            rest)"

definition estimated_toc_pages :: "nat \<Rightarrow> int" where
  "estimated_toc_pages total_docs = max 1 ((int total_docs * 2) div 40)"

definition analyze :: "wfile list \<Rightarrow> doc_info list \<times> int" where
  "analyze pdf_paths =
     (let current_page = 1;
          current_page = current_page + 1;
          total_docs = length pdf_paths;
          current_page = current_page + estimated_toc_pages total_docs
      in analyze_loop current_page [] pdf_paths)"

section \<open>Table of contents: \<open>PDFWatermarker.create_table_of_contents\<close>\<close>

text \<open>
  The page size is the layout library's A4, \<open>(210 mm, 297 mm)\<close> with
  \<open>mm = 72 / 2.54 * 0.1\<close> points. Of the drawing calls only the group headers are kept
  (page, \<open>x\<close>, \<open>y\<close>, text); the entry text, the dot leader and the page number are drawn
  but change none of the tracked variables.
\<close>

definition mm :: real where "mm = 72 / 2.54 * 0.1"
definition A4_width :: real where "A4_width = 210 * mm"
definition A4_height :: real where "A4_height = 297 * mm"

record toc_link =
  rect :: "real \<times> real \<times> real \<times> real"
  target_page :: int
  toc_page :: nat

record toc_state =
  toc_y_position :: real
  toc_page_num :: nat
  toc_current_person :: "string option"
  toc_headers :: "(nat \<times> real \<times> real \<times> string) list"
  toc_links :: "toc_link list"

definition toc_header :: "toc_state \<Rightarrow> doc_info \<Rightarrow> toc_state" where
  "toc_header st info =
     (if toc_current_person st \<noteq> Some (folder info)
      then let y_position = toc_y_position st - 20
           in st \<lparr> toc_current_person := Some (folder info),
                   toc_headers := toc_headers st @ [(toc_page_num st, 50, y_position, folder info)],
                   toc_y_position := y_position - 25 \<rparr>
      else st)"

definition toc_entry :: "toc_state \<Rightarrow> doc_info \<Rightarrow> toc_state" where
  "toc_entry st info =
     (let y_position = toc_y_position st;
          st = st \<lparr> toc_links := toc_links st @
                      [\<lparr> rect = (50, y_position - 2, A4_width - 50, y_position + 13),
                         target_page = page info,
                         toc_page = toc_page_num st \<rparr>] \<rparr>;
          y_position = y_position - 18
      in if y_position < 100
         then st \<lparr> toc_page_num := toc_page_num st + 1, toc_y_position := A4_height - 50 \<rparr>
         else st \<lparr> toc_y_position := y_position \<rparr>)"

definition toc_step :: "toc_state \<Rightarrow> doc_info \<Rightarrow> toc_state" where
  "toc_step st info = toc_entry (toc_header st info) info"

definition toc_init :: toc_state where
  "toc_init = \<lparr> toc_y_position = A4_height - 50 - 40, toc_page_num = 0,
                toc_current_person = None, toc_headers = [], toc_links = [] \<rparr>"

text \<open>The state after the loop; \<open>_toc_pages\<close> is \<open>page_num + 1\<close>.\<close>

definition create_table_of_contents :: "doc_info list \<Rightarrow> toc_state" where
  "create_table_of_contents document_info = foldl toc_step toc_init document_info"

definition toc_pages :: "doc_info list \<Rightarrow> nat" where
  "toc_pages document_info = toc_page_num (create_table_of_contents document_info) + 1"

section \<open>Link injection: \<open>PDFWatermarker.add_links_to_pdf\<close>\<close>

text \<open>
  The annotation builder and the writer's \<open>add_annotation\<close> belong to the PDF library;
  \<open>lib_raises\<close> says for which annotations they raise, which the source catches, logs
  and skips. An index below the page count is read with \<open>!\<close> only under the bound check.
\<close>

definition toc_page_idx_of :: "toc_link \<Rightarrow> nat" where
  "toc_page_idx_of link_info = 1 + toc_page link_info"

definition target_page_idx_of :: "toc_link \<Rightarrow> int" where
  "target_page_idx_of link_info = target_page link_info - 1"

definition pdf_rect_of :: "real \<Rightarrow> real \<times> real \<times> real \<times> real \<Rightarrow> real \<times> real \<times> real \<times> real" where
  "pdf_rect_of page_height r =
     (case r of (x1, y1, x2, y2) \<Rightarrow> (x1, page_height - y2, x2, page_height - y1))"

definition add_annotation :: "nat \<Rightarrow> link_annotation \<Rightarrow> pdf_page list \<Rightarrow> pdf_page list" where
  "add_annotation page_number annotation pages =
     pages[page_number :=
             (pages ! page_number) \<lparr> pg_annots := pg_annots (pages ! page_number) @ [annotation] \<rparr>]"

definition link_step ::
  "(link_annotation \<Rightarrow> bool) \<Rightarrow> pdf_page list \<Rightarrow> toc_link \<Rightarrow> pdf_page list" where
  "link_step lib_raises pages link_info =
     (let toc_page_idx = toc_page_idx_of link_info;
          target_page_idx = target_page_idx_of link_info
      in if target_page_idx < int (length pages) \<and> toc_page_idx < length pages
         then let page_height = pg_height (pages ! toc_page_idx);
                  pdf_rect = pdf_rect_of page_height (rect link_info);
                  annotation = \<lparr> la_rect = pdf_rect, la_target_page_index = target_page_idx \<rparr>
              in if lib_raises annotation then pages
                 else add_annotation toc_page_idx annotation pages
         else pages)"

text \<open>
  \<open>links\<close> is the attribute \<open>_toc_links\<close>: \<open>None\<close> when it was never set; an empty list
  is falsy and skips the loop as well.
\<close>

definition add_links_to_pdf ::
  "(link_annotation \<Rightarrow> bool) \<Rightarrow> toc_link list option \<Rightarrow> pdf_page list \<Rightarrow> pdf_page list" where
  "add_links_to_pdf lib_raises links pdf =
     (case links of
        None \<Rightarrow> pdf
      | Some ls \<Rightarrow> if ls = [] then pdf else foldl (link_step lib_raises) pdf ls)"

section \<open>Bookmark injection: \<open>PDFWatermarker.add_bookmarks_to_pdf\<close>\<close>

record outline_node =
  on_title :: string
  on_page :: int
  on_children :: "(string \<times> int) list"

record bm_state =
  bm_outline :: "outline_node list"
  bm_current_person :: "string option"
  bm_person_bookmark :: "nat option"

definition bm_group :: "bm_state \<Rightarrow> doc_info \<Rightarrow> bm_state" where
  "bm_group st info =
     (let page_num = page info - 1
      in if bm_current_person st \<noteq> Some (folder info)
         then st \<lparr> bm_current_person := Some (folder info),
                   bm_person_bookmark := Some (length (bm_outline st)),
                   bm_outline := bm_outline st @
                     [\<lparr> on_title = folder info, on_page = page_num, on_children = [] \<rparr>] \<rparr>
         else st)"

definition bm_document :: "bm_state \<Rightarrow> doc_info \<Rightarrow> bm_state" where
  "bm_document st info =
     (let page_num = page info - 1
      in case bm_person_bookmark st of
           None \<Rightarrow> st
         | Some i \<Rightarrow>
             st \<lparr> bm_outline := (bm_outline st)
                    [i := (bm_outline st ! i)
                       \<lparr> on_children := on_children (bm_outline st ! i) @
                                          [(document info, page_num)] \<rparr>] \<rparr>)"

definition bm_step :: "bm_state \<Rightarrow> doc_info \<Rightarrow> bm_state" where
  "bm_step st info = bm_document (bm_group st info) info"

text \<open>The two fixed entries; the second title is UTF-8 encoded.\<close>

definition title_bookmark :: outline_node where
  "title_bookmark = \<lparr> on_title = ''Page de Titre'', on_page = 0, on_children = [] \<rparr>"

definition toc_bookmark :: outline_node where
  "toc_bookmark =
     \<lparr> on_title = ''Table des Mati'' @ [CHR 0xC3, CHR 0xA8] @ ''res'', on_page = 1,
       on_children = [] \<rparr>"

definition bm_init :: bm_state where
  "bm_init = \<lparr> bm_outline = [title_bookmark, toc_bookmark],
               bm_current_person = None, bm_person_bookmark = None \<rparr>"

definition add_bookmarks_to_pdf :: "doc_info list \<Rightarrow> outline_node list" where
  "add_bookmarks_to_pdf document_info = bm_outline (foldl bm_step bm_init document_info)"

text \<open>The group-level nodes are the top-level nodes after the two fixed entries.\<close>

definition group_nodes :: "doc_info list \<Rightarrow> outline_node list" where
  "group_nodes document_info = drop 2 (add_bookmarks_to_pdf document_info)"

section \<open>Auxiliary notions for the statements\<close>

text \<open>
  A state of the truncation loop that still overflows, is longer than 10 characters
  and is mapped to itself by the loop body.
\<close>

definition stuck :: "(char \<Rightarrow> nat) \<Rightarrow> nat \<Rightarrow> real \<Rightarrow> string \<times> real \<Rightarrow> bool" where
  "stuck cw fs maxw st =
     (snd st > maxw \<and> length (fst st) > 10 \<and>
      st = (truncate_step (fst st), stringWidth cw (truncate_step (fst st)) fs))"

text \<open>
  The display name as the naming convention words it: strip the \<open><group>_\<close> prefix and
  the \<open>_watermarked\<close> suffix from the stem, cut at the first hyphen, replace
  underscores by spaces, title-case. It is compared with \<open>doc_name_of\<close> below.
\<close>

definition strip_prefix_str :: "string \<Rightarrow> string \<Rightarrow> string" where
  "strip_prefix_str p s = (if prefix p s then drop (length p) s else s)"

definition strip_suffix_str :: "string \<Rightarrow> string \<Rightarrow> string" where
  "strip_suffix_str x s = (if suffix x s then take (length s - length x) s else s)"

definition spec_display_name :: "string \<Rightarrow> string" where
  "spec_display_name name =
     (let group = split_first CHR ''_'' name;
          stem = py_stem name;
          stripped = strip_suffix_str ''_watermarked'' (strip_prefix_str (group @ ''_'') stem)
      in py_title (underscores_to_spaces (split_first CHR ''-'' stripped)))"

text \<open>
  What processing one page does in \<open>watermark_pages\<close>: it raises (unreadable media box,
  or the renderer raises), or it renders (the renderer returns an overlay).
\<close>

definition page_raises :: "(char \<Rightarrow> nat) \<Rightarrow> string \<Rightarrow> raw_page \<Rightarrow> bool" where
  "page_raises cw text p =
     (case rp_mediabox p of
        None \<Rightarrow> True
      | Some (w, h) \<Rightarrow> (case create_watermark_pdf cw text w h of
                          None \<Rightarrow> False | Some r \<Rightarrow> isl r))"

definition page_renders :: "(char \<Rightarrow> nat) \<Rightarrow> string \<Rightarrow> raw_page \<Rightarrow> bool" where
  "page_renders cw text p =
     (case rp_mediabox p of
        None \<Rightarrow> False
      | Some (w, h) \<Rightarrow> (case create_watermark_pdf cw text w h of
                          None \<Rightarrow> False | Some r \<Rightarrow> \<not> isl r))"

text \<open>
  Start pages that follow one another from \<open>start\<close>: each entry begins where the
  previous one ends.
\<close>

fun chained :: "int \<Rightarrow> doc_info list \<Rightarrow> bool" where
  "chained start [] = True"
| "chained start (e # es) = (page e = start \<and> chained (start + int (num_pages e)) es)"

definition total_pages :: "doc_info list \<Rightarrow> int" where
  "total_pages es = sum_list (map (\<lambda>e. int (num_pages e)) es)"

text \<open>Sample inputs for the evaluations.\<close>

definition a4_page :: raw_page where
  "a4_page = \<lparr> rp_mediabox = Some (A4_width, A4_height), rp_content = ''page 1'' \<rparr>"

definition unreadable_page :: raw_page where
  "unreadable_page = \<lparr> rp_mediabox = None, rp_content = ''page 2'' \<rparr>"

definition damaged_file :: src_file where
  "damaged_file = \<lparr> sf_folder = ''Marie'', sf_name = ''bail.pdf'',
                     sf_pdf = Some [a4_page, unreadable_page] \<rparr>"

definition narrow_page :: raw_page where
  "narrow_page = \<lparr> rp_mediabox = Some (150, 200), rp_content = ''page 1'' \<rparr>"

definition stalling_file :: src_file where
  "stalling_file = \<lparr> sf_folder = ''Anne'', sf_name = ''recu.pdf'',
                      sf_pdf = Some [narrow_page, unreadable_page] \<rparr>"

definition good_file :: src_file where
  "good_file = \<lparr> sf_folder = ''Marie'', sf_name = ''cni.pdf'', sf_pdf = Some [a4_page] \<rparr>"

definition blank_page :: pdf_page where
  "blank_page = \<lparr> pg_width = A4_width, pg_height = A4_height, pg_content = ''q'',
                   pg_overlays = [], pg_annots = [] \<rparr>"

definition sample_paths :: "wfile list" where
  "sample_paths =
     [\<lparr> wf_name = ''Anne_cni_watermarked.pdf'', wf_pages = Some [blank_page] \<rparr>,
      \<lparr> wf_name = ''Anne_bail_watermarked.pdf'', wf_pages = None \<rparr>,
      \<lparr> wf_name = ''Bob_fiche_paie-2024_watermarked.pdf'',
        wf_pages = Some [blank_page, blank_page] \<rparr>]"

text \<open>
  The link-injection pass in closed form: a record is in range when both of its page
  indices are below the page count; its annotation is the rectangle with the y-axis
  flipped at the height \<open>H\<close>, aimed at the 0-based target page. \<open>without_annots\<close>
  forgets a page's annotations.
\<close>

definition link_in_range :: "nat \<Rightarrow> toc_link \<Rightarrow> bool" where
  "link_in_range n l = (target_page l - 1 < int n \<and> 1 + toc_page l < n)"

definition flipped_annotation :: "real \<Rightarrow> toc_link \<Rightarrow> link_annotation" where
  "flipped_annotation H l =
     (case rect l of (x1, y1, x2, y2) \<Rightarrow>
        \<lparr> la_rect = (x1, H - y2, x2, H - y1), la_target_page_index = target_page l - 1 \<rparr>)"

definition without_annots :: "pdf_page \<Rightarrow> pdf_page" where
  "without_annots p = p \<lparr> pg_annots := [] \<rparr>"

text \<open>The text of a recorded group header.\<close>

definition header_text :: "nat \<times> real \<times> real \<times> string \<Rightarrow> string" where
  "header_text h = (case h of (page_num, x, y, t) \<Rightarrow> t)"

definition sample_pdf :: "pdf_page list" where
  "sample_pdf = [blank_page, blank_page, blank_page]"

definition sample_links :: "toc_link list" where
  "sample_links =
     [\<lparr> rect = (50, 100, 545, 115), target_page = 3, toc_page = 0 \<rparr>,
      \<lparr> rect = (50, 82, 545, 97), target_page = 9, toc_page = 0 \<rparr>]"

definition entry_anne_cni :: doc_info where
  "entry_anne_cni = \<lparr> folder = ''Anne'', document = ''Cni'', page = 3, num_pages = 1 \<rparr>"

definition entry_bob_bail :: doc_info where
  "entry_bob_bail = \<lparr> folder = ''Bob'', document = ''Bail'', page = 4, num_pages = 2 \<rparr>"

definition entry_anne_quittance :: doc_info where
  "entry_anne_quittance =
     \<lparr> folder = ''Anne'', document = ''Quittance'', page = 6, num_pages = 1 \<rparr>"

section \<open>The renderer's loops\<close>

lemma truncate_step_length: "3 \<le> length t \<Longrightarrow> length (truncate_step t) = length t"
  by (simp add: truncate_step_def)

lemma truncate_step_idem: "truncate_step (truncate_step t) = truncate_step t"
  by (simp add: truncate_step_def)

lemma truncate_loop_not_stuck:
  "truncate_loop cw fs maxw st = Some r \<Longrightarrow> \<not> stuck cw fs maxw st"
proof (rule truncate_loop.raw_induct
         [where P = "\<lambda>cw fs maxw st r. \<not> stuck cw fs maxw st"])
  fix f :: "(char \<Rightarrow> nat) \<Rightarrow> nat \<Rightarrow> real \<Rightarrow> string \<times> real \<Rightarrow> (string \<times> real) option"
  fix cw fs maxw st y
  assume IH: "\<And>cw fs maxw st y. f cw fs maxw st = Some y \<Longrightarrow> \<not> stuck cw fs maxw st"
  assume step: "(if maxw < snd st \<and> 10 < length (fst st)
                 then f cw fs maxw (truncate_step (fst st), stringWidth cw (truncate_step (fst st)) fs)
                 else Some st) = Some y"
  show "\<not> stuck cw fs maxw st"
  proof
    assume s: "stuck cw fs maxw st"
    then have c: "maxw < snd st \<and> 10 < length (fst st)" by (simp add: stuck_def)
    from s have e: "(truncate_step (fst st), stringWidth cw (truncate_step (fst st)) fs) = st"
      by (simp add: stuck_def)
    from step c e have "f cw fs maxw st = Some y" by simp
    from IH[OF this] s show False by simp
  qed
qed

lemma truncate_loop_stuck_None: "stuck cw fs maxw st \<Longrightarrow> truncate_loop cw fs maxw st = None"
  using truncate_loop_not_stuck by (cases "truncate_loop cw fs maxw st") auto

lemma truncate_loop_exit:
  "\<not> (tw > maxw \<and> length t > 10) \<Longrightarrow> truncate_loop cw fs maxw (t, tw) = Some (t, tw)"
  by (subst truncate_loop.simps) auto

lemma truncate_loop_closed:
  "truncate_loop cw fs maxw (t, tw) =
     (if tw > maxw \<and> length t > 10
      then (if stringWidth cw (truncate_step t) fs > maxw then None
            else Some (truncate_step t, stringWidth cw (truncate_step t) fs))
      else Some (t, tw))"
proof (cases "tw > maxw \<and> length t > 10")
  case False
  then have "truncate_loop cw fs maxw (t, tw) = Some (t, tw)" by (rule truncate_loop_exit)
  with False show ?thesis by auto
next
  case True
  let ?t = "truncate_step t"
  let ?w = "stringWidth cw ?t fs"
  have len: "length ?t = length t" using True by (simp add: truncate_step_length)
  have unfold: "truncate_loop cw fs maxw (t, tw) = truncate_loop cw fs maxw (?t, ?w)"
    using True by (subst truncate_loop.simps) simp
  show ?thesis
  proof (cases "?w > maxw")
    case w: True
    have "stuck cw fs maxw (?t, ?w)"
      using w True len by (simp add: stuck_def truncate_step_idem)
    then show ?thesis using unfold True w by (simp add: truncate_loop_stuck_None)
  next
    case w: False
    then have "truncate_loop cw fs maxw (?t, ?w) = Some (?t, ?w)"
      by (simp add: truncate_loop_exit)
    then show ?thesis using unfold True w by simp
  qed
qed

text \<open>
  What the truncation loop returns when it returns: the state it was given, if the loop
  condition is false at once, or else the once-truncated text, which then fits, ends in
  the ellipsis and has the length of the original text.
\<close>

lemma truncate_loop_result:
  assumes "truncate_loop cw fs maxw (t, tw) = Some (t', tw')"
  shows "(t' = t \<and> tw' = tw \<and> \<not> (maxw < tw \<and> 10 < length t)) \<or>
         (t' = truncate_step t \<and> tw' = stringWidth cw t' fs \<and> tw' \<le> maxw \<and>
          suffix ''...'' t' \<and> length t' = length t \<and> 10 < length t')"
proof (cases "maxw < tw \<and> 10 < length t")
  case False
  with assms show ?thesis by (simp add: truncate_loop_closed)
next
  case True
  with assms have r: "\<not> maxw < stringWidth cw (truncate_step t) fs"
      "t' = truncate_step t" "tw' = stringWidth cw (truncate_step t) fs"
    by (auto simp: truncate_loop_closed split: if_splits)
  have "suffix ''...'' (truncate_step t)"
    by (simp add: truncate_step_def suffix_def)
  moreover have "length (truncate_step t) = length t"
    using True by (simp add: truncate_step_length)
  ultimately show ?thesis using r True by simp
qed

lemma shrink_font_floor:
  "min_font_size \<le> fs \<Longrightarrow> stringWidth cw s min_font_size > maxw \<Longrightarrow> tw > maxw \<Longrightarrow>
   shrink_font cw s maxw fs tw =
     (min_font_size, if fs = min_font_size then tw else stringWidth cw s min_font_size)"
proof (induction cw s maxw fs tw rule: shrink_font.induct)
  case (1 cw s maxw font_size text_width)
  show ?case
  proof (cases "font_size > min_font_size")
    case False
    with 1 show ?thesis by simp
  next
    case True
    have mono: "stringWidth cw s min_font_size \<le> stringWidth cw s (font_size - 1)"
      using True by (simp add: stringWidth_def mult_left_mono)
    with 1 True show ?thesis
      by (subst shrink_font.simps) (auto simp: min_font_size_def)
  qed
qed

lemma shrink_font_result:
  "shrink_font cw s maxw fs tw = (fs', tw') \<Longrightarrow>
   fs' \<le> fs \<and> (min_font_size \<le> fs \<longrightarrow> min_font_size \<le> fs') \<and>
   (tw = stringWidth cw s fs \<longrightarrow> tw' = stringWidth cw s fs') \<and>
   (tw' > maxw \<longrightarrow> fs' \<le> min_font_size)"
proof (induction cw s maxw fs tw rule: shrink_font.induct)
  case (1 cw s maxw font_size text_width)
  show ?case
  proof (cases "text_width > maxw \<and> font_size > min_font_size")
    case False
    with "1.prems" show ?thesis by auto
  next
    case True
    with "1.prems" have
      "shrink_font cw s maxw (font_size - 1) (stringWidth cw s (font_size - 1)) = (fs', tw')"
      by (subst (asm) shrink_font.simps) simp
    from "1.IH"[OF True this] True show ?thesis by auto
  qed
qed

text \<open>The inputs on which the renderer does not return.\<close>

lemma create_watermark_pdf_None_iff:
  "create_watermark_pdf cw s w h = None \<longleftrightarrow>
     w \<noteq> 0 \<and> rotation_width_factor w \<noteq> 0 \<and>
     max_allowed_width w < snd (chosen_font cw s w) \<and> 10 < length s \<and>
     max_allowed_width w < stringWidth cw (truncate_step s) (fst (chosen_font cw s w))"
  by (cases "chosen_font cw s w")
     (auto simp: create_watermark_pdf_def truncate_loop_closed Let_def split: if_splits)

lemma cos_rot: "cos rotation_rad = sqrt 3 / 2"
  by (simp add: rotation_rad_def rotation_angle_def cos_30)

lemma sin_rot: "sin rotation_rad = 1 / 2"
  by (simp add: rotation_rad_def rotation_angle_def sin_30)

lemma rotation_width_factor_pos:
  "0 < width \<Longrightarrow> rotation_width_factor width = sqrt 3 / 2 + 12 / width"
  by (simp add: rotation_width_factor_def cos_rot sin_rot max_font_size_def)

lemma sqrt3_lower: "1.7 < sqrt 3"
  by (rule real_less_rsqrt) (simp add: power2_eq_square)

lemma sqrt3_upper: "sqrt 3 < 1.8"
  by (rule real_less_lsqrt) (simp_all add: power2_eq_square)

lemma default_text_units: "sum_list (map helvetica_bold default_watermark_text) = 18945"
  by (simp add: default_watermark_text_def helvetica_bold_def helvetica_bold_table_def)

lemma default_text_truncated_units:
  "sum_list (map helvetica_bold (truncate_step default_watermark_text)) = 18001"
  by (simp add: default_watermark_text_def helvetica_bold_def helvetica_bold_table_def
      truncate_step_def)

lemma default_text_length: "length default_watermark_text = 30"
  by (simp add: default_watermark_text_def)

lemma max_allowed_width_150: "max_allowed_width 150 < 140"
proof -
  have f: "rotation_width_factor 150 = sqrt 3 / 2 + 12 / 150"
    by (rule rotation_width_factor_pos) simp
  have "(0.93::real) < sqrt 3 / 2 + 12 / 150" using sqrt3_lower by simp
  then have "120 / (sqrt 3 / 2 + 12 / 150) < 120 / (0.93::real)"
    by (intro divide_strict_left_mono) (auto intro: mult_pos_pos)
  also have "\<dots> < 140" by simp
  finally show ?thesis by (simp add: max_allowed_width_def usable_width_def margin_factor_def f)
qed

lemma rwf_150_nonzero: "rotation_width_factor 150 \<noteq> 0"
proof -
  have "rotation_width_factor 150 = sqrt 3 / 2 + 12 / 150"
    by (rule rotation_width_factor_pos) simp
  moreover have "0 < sqrt 3 / 2 + 12 / (150::real)" using sqrt3_lower by simp
  ultimately show ?thesis by simp
qed

lemma chosen_font_narrow:
  "chosen_font helvetica_bold default_watermark_text 150 = (8, 3789 / 25)"
proof -
  have w8: "stringWidth helvetica_bold default_watermark_text min_font_size = 3789 / 25"
    by (simp add: stringWidth_def default_text_units min_font_size_def)
  have w24: "stringWidth helvetica_bold default_watermark_text max_font_size = 11367 / 25"
    by (simp add: stringWidth_def default_text_units max_font_size_def)
  have a: "min_font_size \<le> max_font_size"
    by (simp add: min_font_size_def max_font_size_def)
  have b: "max_allowed_width 150 < stringWidth helvetica_bold default_watermark_text min_font_size"
    unfolding w8 using max_allowed_width_150 by simp
  have c: "max_allowed_width 150 < stringWidth helvetica_bold default_watermark_text max_font_size"
    unfolding w24 using max_allowed_width_150 by simp
  have ne: "max_font_size \<noteq> min_font_size"
    by (simp add: min_font_size_def max_font_size_def)
  have "chosen_font helvetica_bold default_watermark_text 150 =
          (min_font_size, stringWidth helvetica_bold default_watermark_text min_font_size)"
    unfolding chosen_font_def using shrink_font_floor[OF a b c] ne by simp
  then show ?thesis unfolding w8 by (simp add: min_font_size_def)
qed

lemma truncate_loop_narrow_None:
  "truncate_loop helvetica_bold 8 (max_allowed_width 150) (default_watermark_text, 3789 / 25) = None"
proof -
  have t8: "stringWidth helvetica_bold (truncate_step default_watermark_text) 8 = 18001 / 125"
    by (simp add: stringWidth_def default_text_truncated_units)
  have over: "max_allowed_width 150 < 3789 / 25" "max_allowed_width 150 < 18001 / 125"
    using max_allowed_width_150 by simp_all
  show ?thesis
    unfolding truncate_loop_closed t8 using over by (simp add: default_text_length)
qed

lemma create_watermark_pdf_narrow_None:
  "create_watermark_pdf helvetica_bold default_watermark_text 150 h = None"
proof -
  have over: "max_allowed_width 150 < 3789 / 25"
    using max_allowed_width_150 by simp
  have nz: "\<not> ((150::real) = 0 \<or> rotation_width_factor 150 = 0)"
    using rwf_150_nonzero by simp
  show ?thesis
    unfolding create_watermark_pdf_def chosen_font_narrow Let_def prod.case
    using nz over truncate_loop_narrow_None by simp
qed

section \<open>Claims about the overlay renderer\<close>

text \<open>
  C9. One truncation step removes the last three characters of the text and appends the
  three-character ellipsis; on a text of more than three characters it keeps the length,
  and applying it twice gives the same string as applying it once.
\<close>

theorem truncate_step_keeps_length_idempotent:
  "(t = a @ b \<and> length b = 3 \<longrightarrow> truncate_step t = a @ ''...'') \<and>
   (3 < length t \<longrightarrow> length (truncate_step t) = length t) \<and>
   truncate_step (truncate_step t) = truncate_step t"
  by (auto simp: truncate_step_def)

theorem truncate_step_keeps_length_idempotent_witness:
  "''DOCUMENT RESERVE'' = ''DOCUMENT RESE'' @ ''RVE'' \<and> length ''RVE'' = 3 \<and>
   3 < length ''DOCUMENT RESERVE'' \<and>
   truncate_step ''DOCUMENT RESERVE'' = ''DOCUMENT RESE...'' \<and>
   length (truncate_step ''DOCUMENT RESERVE'') = length ''DOCUMENT RESERVE'' \<and>
   truncate_step (truncate_step ''DOCUMENT RESERVE'') = truncate_step ''DOCUMENT RESERVE''"
  using truncate_step_keeps_length_idempotent
          [of "''DOCUMENT RESERVE''" "''DOCUMENT RESE''" "''RVE''"]
  by (simp add: truncate_step_def)

text \<open>
  C4. The truncation loop is claimed to terminate whenever the text still overflows at the
  8pt floor. With the default watermark text on a page 150pt wide the text overflows at
  8pt (151.56pt against a bound below 140pt), the step yields a text of the same length,
  30 characters, that still overflows (144.008pt), and the step maps that text to itself:
  the loop does not return, and neither does the renderer.
\<close>

theorem truncation_loop_never_returns:
  "chosen_font helvetica_bold default_watermark_text 150 = (8, 3789 / 25) \<and>
   max_allowed_width 150 < 3789 / 25 \<and>
   truncate_loop helvetica_bold 8 (max_allowed_width 150) (default_watermark_text, 3789 / 25) = None \<and>
   create_watermark_pdf helvetica_bold default_watermark_text 150 200 = None"
  using chosen_font_narrow max_allowed_width_150 truncate_loop_narrow_None
    create_watermark_pdf_narrow_None [of 200]
  by simp

lemma A4_width_value: "A4_width = 75600 / 127"
  by (simp add: A4_width_def mm_def)

lemma cli_text_units:
  "sum_list (map helvetica_bold ''RESERVE POUR LOCATION APPARTEMENT'') = 21335"
  by (simp add: helvetica_bold_def helvetica_bold_table_def)

lemma max_allowed_width_eq:
  "0 < width \<Longrightarrow> max_allowed_width width = width * 0.8 / (sqrt 3 / 2 + 12 / width)"
  by (simp add: max_allowed_width_def usable_width_def margin_factor_def
      rotation_width_factor_pos)

lemma max_allowed_width_A4: "515 < max_allowed_width A4_width"
proof -
  have pos: "(0::real) < sqrt 3 / 2 + 12 / (75600 / 127)"
    using sqrt3_lower by simp
  have c: "12 / (75600 / 127) = (127 / 6300::real)" by simp
  have "sqrt 3 / 2 < 9 / 10" using sqrt3_upper by linarith
  then have "sqrt 3 / 2 + 12 / (75600 / 127) < (0.9202::real)"
    unfolding c by simp
  then have "515 * (sqrt 3 / 2 + 12 / (75600 / 127)) < 515 * (0.9202::real)"
    by (simp only: mult_strict_left_mono zero_less_numeral)
  also have "\<dots> < (75600 / 127) * 0.8" by simp
  finally have "515 < (75600 / 127) * 0.8 / (sqrt 3 / 2 + 12 / (75600 / 127))"
    using pos by (simp only: pos_less_divide_eq)
  then show ?thesis
    unfolding A4_width_value by (subst max_allowed_width_eq) simp_all
qed

lemma shrink_font_fits: "tw \<le> maxw \<Longrightarrow> shrink_font cw s maxw fs tw = (fs, tw)"
  by (subst shrink_font.simps) simp

lemma chosen_font_cli_A4:
  "chosen_font helvetica_bold ''RESERVE POUR LOCATION APPARTEMENT'' A4_width = (24, 12801 / 25)"
proof -
  have w24: "stringWidth helvetica_bold ''RESERVE POUR LOCATION APPARTEMENT'' max_font_size
             = 12801 / 25"
    unfolding stringWidth_def cli_text_units by (simp add: max_font_size_def)
  have fits: "12801 / 25 \<le> max_allowed_width A4_width"
    using max_allowed_width_A4 by simp
  show ?thesis
    unfolding chosen_font_def w24 shrink_font_fits[OF fits]
    by (simp add: max_font_size_def)
qed

text \<open>
  C3. The font size chosen by the search is claimed never to leave the text wider than
  \<open>width * 0.8\<close>, the truncation case apart. The search compares the width with
  \<open>max_allowed_width\<close>, the usable width divided by a factor below one on every page
  wider than about 90pt. The text of the command-line example on an A4 page stays at 24pt
  with a width of 512.04pt, above \<open>0.8 * 595.28 = 476.22\<close>.
\<close>

theorem font_search_exceeds_eighty_percent:
  "fst (chosen_font helvetica_bold ''RESERVE POUR LOCATION APPARTEMENT'' A4_width) = 24 \<and>
   snd (chosen_font helvetica_bold ''RESERVE POUR LOCATION APPARTEMENT'' A4_width)
     > A4_width * 0.8"
proof -
  have "A4_width * 0.8 < 12801 / 25" by (simp add: A4_width_value)
  then show ?thesis unfolding chosen_font_cli_A4 fst_conv snd_conv by simp
qed

text \<open>
  C3, as the code has it: on a page of positive width the chosen size lies between 8pt
  and 24pt, the width is the one measured at that size, and it is at most
  \<open>width * 0.8 / (cos 30\<degree> + sin 30\<degree> * (24 / width))\<close> unless the search stopped at the
  8pt floor with the text still over that bound.
\<close>

theorem font_search_within_rotated_bound:
  assumes "0 < width" and "chosen_font cw s width = (fs, tw)"
  shows "tw = stringWidth cw s fs \<and> 8 \<le> fs \<and> fs \<le> 24 \<and>
         (tw \<le> width * 0.8 / (sqrt 3 / 2 + 1 / 2 * (24 / width)) \<or>
          (fs = 8 \<and> width * 0.8 / (sqrt 3 / 2 + 1 / 2 * (24 / width)) < tw))"
proof -
  from assms(2) have sf: "shrink_font cw s (max_allowed_width width) max_font_size
        (stringWidth cw s max_font_size) = (fs, tw)"
    by (simp add: chosen_font_def)
  note r = shrink_font_result[OF sf]
  have b: "max_allowed_width width = width * 0.8 / (sqrt 3 / 2 + 1 / 2 * (24 / width))"
    using assms(1) by (simp add: max_allowed_width_eq)
  from r have "tw = stringWidth cw s fs" by simp
  moreover from r have "8 \<le> fs" "fs \<le> 24"
    by (simp_all add: min_font_size_def max_font_size_def)
  moreover from r have "max_allowed_width width < tw \<longrightarrow> fs \<le> 8"
    by (simp add: min_font_size_def)
  ultimately show ?thesis unfolding b[symmetric] by auto
qed

theorem font_search_within_rotated_bound_witness:
  "0 < A4_width \<and>
   chosen_font helvetica_bold ''RESERVE POUR LOCATION APPARTEMENT'' A4_width = (24, 12801 / 25) \<and>
   12801 / 25 \<le> A4_width * 0.8 / (sqrt 3 / 2 + 1 / 2 * (24 / A4_width))"
proof -
  have p: "0 < A4_width" by (simp add: A4_width_value)
  from font_search_within_rotated_bound[OF p chosen_font_cli_A4] p chosen_font_cli_A4
  show ?thesis by simp
qed

section \<open>Claims about the compositor and the orchestrator\<close>

lemma watermark_pages_raises:
  "\<forall>q \<in> set pre. page_renders cw s q \<Longrightarrow> page_raises cw s p \<Longrightarrow>
   \<exists>e. watermark_pages cw s writer (pre @ p # post) = Some (Inl e)"
proof (induction pre arbitrary: writer)
  case Nil
  then show ?case
    by (auto simp: page_raises_def isl_def split: option.splits sum.splits prod.splits)
next
  case (Cons q pre)
  from Cons.prems(1) have "page_renders cw s q" by simp
  then have "\<exists>w h ov. rp_mediabox q = Some (w, h) \<and>
      create_watermark_pdf cw s w h = Some (Inr ov)"
    by (auto simp: page_renders_def isl_def split: option.splits sum.splits prod.splits)
       (metis sum.exhaust)
  then obtain w h ov where "rp_mediabox q = Some (w, h)"
      "create_watermark_pdf cw s w h = Some (Inr ov)"
    by blast
  moreover from Cons have
    "\<exists>e. watermark_pages cw s (writer @ [merge_page q w h ov]) (pre @ p # post) = Some (Inl e)"
    by simp
  ultimately show ?case by simp
qed

lemma watermark_pages_returns:
  "\<forall>p \<in> set pages. page_renders cw s p \<Longrightarrow>
   \<exists>out. watermark_pages cw s writer pages = Some (Inr out)"
proof (induction pages arbitrary: writer)
  case Nil
  then show ?case by simp
next
  case (Cons q pages)
  from Cons.prems have "page_renders cw s q" by simp
  then have "\<exists>w h ov. rp_mediabox q = Some (w, h) \<and>
      create_watermark_pdf cw s w h = Some (Inr ov)"
    by (auto simp: page_renders_def isl_def split: option.splits sum.splits prod.splits)
       (metis sum.exhaust)
  then obtain w h ov where "rp_mediabox q = Some (w, h)"
      "create_watermark_pdf cw s w h = Some (Inr ov)"
    by blast
  moreover from Cons have
    "\<exists>out. watermark_pages cw s (writer @ [merge_page q w h ov]) pages = Some (Inr out)"
    by simp
  ultimately show ?case by simp
qed

lemma process_files_skips:
  "watermark_pdf cw s (sf_pdf f) = Some (Inl e) \<Longrightarrow>
   process_files cw s acc (before @ f # after) = process_files cw s acc (before @ after)"
proof (induction before arbitrary: acc)
  case Nil
  then show ?case by simp
next
  case (Cons b before)
  then show ?case by (simp split: option.splits sum.splits)
qed

lemma watermark_pages_frame:
  "watermark_pages cw s writer pages = Some (Inr out) \<Longrightarrow>
   \<exists>new. out = writer @ new \<and> length new = length pages \<and>
     map (\<lambda>q. Some (pg_width q, pg_height q)) new = map rp_mediabox pages \<and>
     map pg_content new = map rp_content pages"
proof (induction pages arbitrary: writer out)
  case Nil
  then show ?case by simp
next
  case (Cons p pages)
  from Cons.prems obtain w h ov where mb: "rp_mediabox p = Some (w, h)"
    and cr: "create_watermark_pdf cw s w h = Some (Inr ov)"
    and rec: "watermark_pages cw s (writer @ [merge_page p w h ov]) pages = Some (Inr out)"
    by (auto split: option.splits sum.splits prod.splits)
  from Cons.IH[OF rec] obtain new where
    n: "out = (writer @ [merge_page p w h ov]) @ new" "length new = length pages"
       "map (\<lambda>q. Some (pg_width q, pg_height q)) new = map rp_mediabox pages"
       "map pg_content new = map rp_content pages"
    by blast
  show ?case
  proof (intro exI conjI)
    show "out = writer @ (merge_page p w h ov # new)" using n(1) by simp
  qed (use n mb in \<open>simp_all add: merge_page_def\<close>)
qed

lemma rwf_A4_nonzero: "rotation_width_factor A4_width \<noteq> 0"
proof -
  have "rotation_width_factor A4_width = sqrt 3 / 2 + 12 / A4_width"
    by (rule rotation_width_factor_pos) (simp add: A4_width_value)
  moreover have "0 < sqrt 3 / 2 + 12 / A4_width"
    using sqrt3_lower by (simp add: A4_width_value)
  ultimately show ?thesis by simp
qed

lemma create_watermark_pdf_cli_A4:
  "create_watermark_pdf helvetica_bold ''RESERVE POUR LOCATION APPARTEMENT'' A4_width h =
     Some (Inr (place_text A4_width h 24 ''RESERVE POUR LOCATION APPARTEMENT'' (12801 / 25)))"
proof -
  have nz: "\<not> (A4_width = 0 \<or> rotation_width_factor A4_width = 0)"
    using rwf_A4_nonzero by (simp add: A4_width_value)
  have fits: "\<not> max_allowed_width A4_width < 12801 / 25"
    using max_allowed_width_A4 by simp
  show ?thesis
    unfolding create_watermark_pdf_def chosen_font_cli_A4 Let_def prod.case
    using nz fits by simp
qed

lemma a4_page_renders:
  "page_renders helvetica_bold ''RESERVE POUR LOCATION APPARTEMENT'' a4_page"
  by (simp add: page_renders_def a4_page_def create_watermark_pdf_cli_A4)

lemma unreadable_page_raises: "page_raises cw s unreadable_page"
  by (simp add: page_raises_def unreadable_page_def)

text \<open>
  C5. Watermarking is claimed to produce, for every well-formed document, a document with
  the same pages in the same order and sizes. A one-page document whose page is 150pt
  wide is well-formed, and with the default watermark text the renderer does not return
  on it (the truncation loop of C4), so no document is produced. When the renderer
  returns an overlay for every page, \<open>watermark_pages\<close> returns
  (lemma \<open>watermark_pages_returns\<close>), and whenever it returns pages they are the input's
  pages in order with their sizes and contents (lemma \<open>watermark_pages_frame\<close>).
\<close>

theorem watermark_pdf_hangs_on_narrow_page:
  "watermark_pdf helvetica_bold default_watermark_text
     (Some [\<lparr> rp_mediabox = Some (150, 200), rp_content = ''q'' \<rparr>]) = None"
  by (simp add: watermark_pdf_def create_watermark_pdf_narrow_None)

text \<open>
  Failure isolation on the runs that return. If the file cannot be read, or processing
  one of its pages raises after the pages before it were rendered, \<open>watermark_pdf\<close>
  returns the failure value, and the orchestrator gives the same result as on the list
  without that file.
\<close>

lemma watermark_failure_isolated:
  assumes "sf_pdf f = None \<or>
           (\<exists>pre p post. sf_pdf f = Some (pre @ p # post) \<and>
              (\<forall>q \<in> set pre. page_renders cw s q) \<and> page_raises cw s p)"
  shows "(\<exists>e. watermark_pdf cw s (sf_pdf f) = Some (Inl e)) \<and>
         process_files cw s acc (before @ f # after) = process_files cw s acc (before @ after)"
proof -
  from assms have "\<exists>e. watermark_pdf cw s (sf_pdf f) = Some (Inl e)"
  proof
    assume "sf_pdf f = None"
    then show ?thesis by (simp add: watermark_pdf_def)
  next
    assume "\<exists>pre p post. sf_pdf f = Some (pre @ p # post) \<and>
              (\<forall>q \<in> set pre. page_renders cw s q) \<and> page_raises cw s p"
    then obtain pre p post where "sf_pdf f = Some (pre @ p # post)"
      "\<forall>q \<in> set pre. page_renders cw s q" "page_raises cw s p" by blast
    then show ?thesis
      using watermark_pages_raises[of pre cw s p "[]" post] by (simp add: watermark_pdf_def)
  qed
  then show ?thesis using process_files_skips by blast
qed

lemma damaged_file_is_skipped:
  "sf_pdf damaged_file = Some ([a4_page] @ unreadable_page # []) \<and>
   page_renders helvetica_bold ''RESERVE POUR LOCATION APPARTEMENT'' a4_page \<and>
   page_raises helvetica_bold ''RESERVE POUR LOCATION APPARTEMENT'' unreadable_page \<and>
   watermark_pdf helvetica_bold ''RESERVE POUR LOCATION APPARTEMENT'' (sf_pdf damaged_file)
     = Some (Inl PdfReadError) \<and>
   process_files helvetica_bold ''RESERVE POUR LOCATION APPARTEMENT'' [] [damaged_file] = Some []"
proof -
  have d: "sf_pdf damaged_file = Some ([a4_page] @ unreadable_page # [])"
    by (simp add: damaged_file_def)
  have h: "sf_pdf damaged_file = None \<or>
           (\<exists>pre p post. sf_pdf damaged_file = Some (pre @ p # post) \<and>
              (\<forall>q \<in> set pre. page_renders helvetica_bold ''RESERVE POUR LOCATION APPARTEMENT'' q) \<and>
              page_raises helvetica_bold ''RESERVE POUR LOCATION APPARTEMENT'' p)"
  proof (intro disjI2 exI conjI)
    show "sf_pdf damaged_file = Some ([a4_page] @ unreadable_page # [])" by (rule d)
    show "\<forall>q \<in> set [a4_page].
            page_renders helvetica_bold ''RESERVE POUR LOCATION APPARTEMENT'' q"
      using a4_page_renders by simp
    show "page_raises helvetica_bold ''RESERVE POUR LOCATION APPARTEMENT'' unreadable_page"
      by (rule unreadable_page_raises)
  qed
  from watermark_failure_isolated[OF h, of "[]" "[]" "[]"]
  have "process_files helvetica_bold ''RESERVE POUR LOCATION APPARTEMENT'' [] [damaged_file]
          = Some []"
    by simp
  moreover have "watermark_pdf helvetica_bold ''RESERVE POUR LOCATION APPARTEMENT''
                   (sf_pdf damaged_file) = Some (Inl PdfReadError)"
    unfolding d by (simp add: watermark_pdf_def a4_page_def unreadable_page_def
        create_watermark_pdf_cli_A4)
  ultimately show ?thesis
    using d a4_page_renders unreadable_page_raises by simp
qed

text \<open>
  What the orchestrator's loop computes when every call of \<open>watermark_pdf\<close> returns and
  the output names are pairwise different and new: the files whose watermarking
  succeeded, in order, each with the pages written; the files that failed are left out
  and the files after them are still processed.
\<close>

lemma process_files_collects:
  assumes "distinct (map output_filename fs)"
    and "\<forall>f \<in> set fs. output_filename f \<notin> set (map fst acc)"
    and "\<forall>f \<in> set fs. watermark_pdf cw s (sf_pdf f) \<noteq> None"
  shows "process_files cw s acc fs =
           Some (acc @ concat (map (\<lambda>f. case watermark_pdf cw s (sf_pdf f) of
                                           Some (Inr pages) \<Rightarrow> [(output_filename f, pages)]
                                         | _ \<Rightarrow> []) fs))"
  using assms
proof (induction fs arbitrary: acc)
  case Nil
  then show ?case by simp
next
  case (Cons f fs)
  from Cons.prems obtain r where r: "watermark_pdf cw s (sf_pdf f) = Some r" by auto
  have fresh: "output_filename f \<notin> set (map fst acc)" using Cons.prems(2) by simp
  have d: "distinct (map output_filename fs)" using Cons.prems(1) by simp
  have n: "\<forall>g \<in> set fs. watermark_pdf cw s (sf_pdf g) \<noteq> None" using Cons.prems(3) by simp
  show ?case
  proof (cases r)
    case (Inl e)
    have a: "\<forall>g \<in> set fs. output_filename g \<notin> set (map fst acc)"
      using Cons.prems(2) by simp
    from Cons.IH[OF d a n] r Inl fresh show ?thesis by simp
  next
    case (Inr pages)
    have a: "\<forall>g \<in> set fs. output_filename g \<notin> set (map fst (acc @ [(output_filename f, pages)]))"
      using Cons.prems(1,2) by (auto simp: image_iff)
    from Cons.IH[OF d a n] r Inr fresh show ?thesis by simp
  qed
qed

lemma good_file_is_kept:
  "process_files helvetica_bold ''RESERVE POUR LOCATION APPARTEMENT'' [] [damaged_file, good_file] =
     Some [(''Marie_cni_watermarked.pdf'',
            [merge_page a4_page A4_width A4_height
               (place_text A4_width A4_height 24 ''RESERVE POUR LOCATION APPARTEMENT''
                  (12801 / 25))])]"
proof -
  have bad: "watermark_pdf helvetica_bold ''RESERVE POUR LOCATION APPARTEMENT''
               (sf_pdf damaged_file) = Some (Inl PdfReadError)"
    by (simp add: damaged_file_def watermark_pdf_def a4_page_def unreadable_page_def
        create_watermark_pdf_cli_A4)
  have good: "watermark_pdf helvetica_bold ''RESERVE POUR LOCATION APPARTEMENT''
                (sf_pdf good_file) =
              Some (Inr [merge_page a4_page A4_width A4_height
                (place_text A4_width A4_height 24 ''RESERVE POUR LOCATION APPARTEMENT''
                   (12801 / 25))])"
    by (simp add: good_file_def watermark_pdf_def a4_page_def create_watermark_pdf_cli_A4)
  have name: "output_filename good_file = ''Marie_cni_watermarked.pdf''"
    by (simp add: output_filename_def good_file_def py_stem_def)
  show ?thesis by (simp add: bad good name)
qed

text \<open>
  C6. A document whose page fails is claimed to make \<open>watermark_pdf\<close> return a failure
  result, with the run going on to the remaining documents. In the file \<open>stalling_file\<close>
  the second page cannot be read, but the first page is 150pt wide: with the default
  watermark text the renderer does not return on it (the truncation loop of C4), so
  \<open>watermark_pdf\<close> never reaches the unreadable page and returns nothing, and the
  orchestrator never gets to the readable file that follows.
\<close>

theorem unreadable_page_behind_narrow_page_stalls:
  "rp_mediabox unreadable_page = None \<and>
   sf_pdf stalling_file = Some [narrow_page, unreadable_page] \<and>
   watermark_pdf helvetica_bold default_watermark_text (sf_pdf stalling_file) = None \<and>
   process_files helvetica_bold default_watermark_text [] [stalling_file, good_file] = None"
  by (simp add: stalling_file_def narrow_page_def unreadable_page_def watermark_pdf_def
      create_watermark_pdf_narrow_None)

section \<open>Claims about the document info\<close>

lemma chained_append:
  "chained start (es @ [e]) = (chained start es \<and> page e = start + total_pages es)"
  by (induction es arbitrary: start) (auto simp: total_pages_def algebra_simps)

lemma analyze_loop_chained:
  "analyze_loop cp di rest = (di', cp') \<Longrightarrow> chained start di \<Longrightarrow> cp = start + total_pages di \<Longrightarrow>
   chained start di' \<and> cp' = start + total_pages di'"
proof (induction rest arbitrary: cp di)
  case Nil
  then show ?case by auto
next
  case (Cons f rest)
  show ?case
  proof (cases "wf_pages f")
    case None
    with Cons show ?thesis by simp
  next
    case (Some pages)
    let ?e = "\<lparr> folder = folder_name_of (wf_name f), document = doc_name_of (wf_name f),
                page = cp, num_pages = length pages \<rparr>"
    from Cons.prems(1) Some have
      r: "analyze_loop (cp + int (length pages)) (di @ [?e]) rest = (di', cp')" by simp
    have c: "chained start (di @ [?e])"
      using Cons.prems by (simp add: chained_append)
    have t: "cp + int (length pages) = start + total_pages (di @ [?e])"
      using Cons.prems by (simp add: total_pages_def)
    from Cons.IH[OF r c t] show ?thesis .
  qed
qed

lemma chained_nth:
  "chained start es \<Longrightarrow> Suc i < length es \<Longrightarrow>
   page (es ! Suc i) = page (es ! i) + int (num_pages (es ! i))"
proof (induction es arbitrary: start i)
  case Nil
  then show ?case by simp
next
  case (Cons e es)
  show ?case
  proof (cases i)
    case 0
    with Cons.prems show ?thesis by (cases es) auto
  next
    case (Suc j)
    with Cons show ?thesis by auto
  qed
qed

lemma chained_hd: "chained start es \<Longrightarrow> es \<noteq> [] \<Longrightarrow> page (hd es) = start"
  by (cases es) auto

text \<open>
  C2. In the entry list built by the analysis loop every entry starts where the previous
  one ends, and the first entry starts at \<open>2 + max 1 ((n * 2) div 40)\<close> for \<open>n\<close> input
  paths (unreadable files are counted in \<open>n\<close> and get no entry).
\<close>

theorem start_pages_are_consecutive:
  assumes "analyze pdf_paths = (document_info, final_page)"
  shows "(\<forall>i. Suc i < length document_info \<longrightarrow>
            page (document_info ! Suc i) =
              page (document_info ! i) + int (num_pages (document_info ! i))) \<and>
         (document_info \<noteq> [] \<longrightarrow>
            page (hd document_info) = 2 + max 1 ((int (length pdf_paths) * 2) div 40))"
proof -
  let ?start = "2 + max 1 ((int (length pdf_paths) * 2) div 40)"
  from assms have "analyze_loop ?start [] pdf_paths = (document_info, final_page)"
    by (simp add: analyze_def estimated_toc_pages_def)
  from analyze_loop_chained[OF this, of ?start]
  have "chained ?start document_info" by (simp add: total_pages_def)
  then show ?thesis using chained_nth chained_hd by blast
qed

lemma analyze_sample:
  "analyze sample_paths =
     ([\<lparr> folder = ''Anne'', document = ''Cni'', page = 3, num_pages = 1 \<rparr>,
       \<lparr> folder = ''Bob'', document = ''Fiche Paie'', page = 4, num_pages = 2 \<rparr>], 6)"
  by code_simp

theorem start_pages_are_consecutive_witness:
  "analyze sample_paths = (fst (analyze sample_paths), snd (analyze sample_paths)) \<and>
   Suc 0 < length (fst (analyze sample_paths)) \<and>
   page (fst (analyze sample_paths) ! Suc 0) =
     page (fst (analyze sample_paths) ! 0) + int (num_pages (fst (analyze sample_paths) ! 0)) \<and>
   fst (analyze sample_paths) \<noteq> [] \<and>
   page (hd (fst (analyze sample_paths))) = 2 + max 1 ((int (length sample_paths) * 2) div 40) \<and>
   map page (fst (analyze sample_paths)) = [3, 4]"
proof -
  have h: "analyze sample_paths = (fst (analyze sample_paths), snd (analyze sample_paths))"
    by simp
  from start_pages_are_consecutive[OF h] show ?thesis
    by (simp add: analyze_sample)
qed

lemma py_stem_dupont: "py_stem ''Dupont_Dupont_cni_watermarked.pdf'' = ''Dupont_Dupont_cni_watermarked''"
  by (simp add: py_stem_def)

lemma folder_name_of_dupont: "folder_name_of ''Dupont_Dupont_cni_watermarked.pdf'' = ''Dupont''"
  by (simp add: folder_name_of_def split_first_def)

lemma py_title_cni: "py_title ''cni'' = ''Cni''"
  by code_simp

lemma py_title_dupont_cni: "py_title ''Dupont cni'' = ''Dupont Cni''"
  by code_simp

lemma remove_all_group_dupont: "remove_all ''Dupont_'' ''Dupont_Dupont_cni_watermarked'' = ''cni_watermarked''"
  by simp

lemma remove_all_suffix_dupont: "remove_all ''_watermarked'' ''cni_watermarked'' = ''cni''"
  by simp

text \<open>
  C7. The display name is claimed to be the stem without its \<open><group>_\<close> prefix and its
  \<open>_watermarked\<close> suffix, cut at the first hyphen, with underscores as spaces and
  title-cased. For the file \<open>Dupont_cni.pdf\<close> of the folder \<open>Dupont\<close> the intermediate
  name is \<open>Dupont_Dupont_cni_watermarked.pdf\<close>; the source deletes every occurrence of
  \<open>Dupont_\<close> and yields \<open>Cni\<close>, where the convention gives \<open>Dupont Cni\<close>. The group
  label is the text before the first underscore.
\<close>

theorem display_name_drops_repeated_group:
  "folder_name_of ''Dupont_Dupont_cni_watermarked.pdf'' = ''Dupont'' \<and>
   doc_name_of ''Dupont_Dupont_cni_watermarked.pdf'' = ''Cni'' \<and>
   spec_display_name ''Dupont_Dupont_cni_watermarked.pdf'' = ''Dupont Cni''"
  by (simp add: doc_name_of_def spec_display_name_def folder_name_of_dupont py_stem_dupont split_first_def
      strip_prefix_str_def strip_suffix_str_def underscores_to_spaces_def py_title_cni py_title_dupont_cni
      suffix_def)

section \<open>Claims about the link-injection pass\<close>

lemma link_step_eq:
  "link_step lib_raises pages l =
     (if link_in_range (length pages) l \<and>
         \<not> lib_raises (flipped_annotation (pg_height (pages ! (1 + toc_page l))) l)
      then add_annotation (1 + toc_page l)
             (flipped_annotation (pg_height (pages ! (1 + toc_page l))) l) pages
      else pages)"
  by (auto simp: link_step_def link_in_range_def flipped_annotation_def pdf_rect_of_def
      toc_page_idx_of_def target_page_idx_of_def Let_def split: prod.splits)

lemma length_add_annotation: "length (add_annotation i a pages) = length pages"
  by (simp add: add_annotation_def)

lemma without_annots_add_annotation:
  "map without_annots (add_annotation i a pages) = map without_annots pages"
proof (cases "i < length pages")
  case True
  then show ?thesis
    by (intro nth_equalityI)
       (auto simp: add_annotation_def without_annots_def nth_list_update)
next
  case False
  then have "length pages \<le> i" by simp
  then show ?thesis by (simp add: add_annotation_def list_update_beyond)
qed

lemma nth_add_annotation:
  "p < length pages \<Longrightarrow>
   pg_annots (add_annotation i a pages ! p) =
     pg_annots (pages ! p) @ (if i = p then [a] else [])"
  by (simp add: add_annotation_def nth_list_update)

lemma length_link_step: "length (link_step lib_raises pages l) = length pages"
  by (simp add: link_step_eq length_add_annotation)

lemma without_annots_link_step:
  "map without_annots (link_step lib_raises pages l) = map without_annots pages"
  by (simp add: link_step_eq without_annots_add_annotation)

lemma length_foldl_link_step:
  "length (foldl (link_step lib_raises) pages ls) = length pages"
  by (induction ls arbitrary: pages) (simp_all add: length_link_step)

lemma without_annots_foldl_link_step:
  "map without_annots (foldl (link_step lib_raises) pages ls) = map without_annots pages"
  by (induction ls arbitrary: pages) (simp_all add: without_annots_link_step)

lemma without_annots_height:
  "map without_annots xs = map without_annots ys \<Longrightarrow> p < length xs \<Longrightarrow>
   pg_height (xs ! p) = pg_height (ys ! p)"
proof -
  assume a: "map without_annots xs = map without_annots ys" and b: "p < length xs"
  from a have l: "length xs = length ys" by (rule map_eq_imp_length_eq)
  from a b l have "without_annots (xs ! p) = without_annots (ys ! p)"
    by (metis nth_map)
  then have "pg_height (without_annots (xs ! p)) = pg_height (without_annots (ys ! p))"
    by simp
  then show ?thesis by (simp add: without_annots_def)
qed

lemma foldl_link_step_annots:
  "map without_annots pages = map without_annots pdf \<Longrightarrow> p < length pdf \<Longrightarrow>
   pg_annots (foldl (link_step lib_raises) pages ls ! p) =
     pg_annots (pages ! p) @
     map (flipped_annotation (pg_height (pdf ! p)))
       (filter (\<lambda>l. 1 + toc_page l = p \<and> link_in_range (length pdf) l \<and>
                     \<not> lib_raises (flipped_annotation (pg_height (pdf ! p)) l)) ls)"
proof (induction ls arbitrary: pages)
  case Nil
  then show ?case by simp
next
  case (Cons l ls)
  from Cons.prems(1) have len: "length pages = length pdf" by (rule map_eq_imp_length_eq)
  have w: "map without_annots (link_step lib_raises pages l) = map without_annots pdf"
    using Cons.prems(1) by (simp add: without_annots_link_step)
  note IH = Cons.IH[OF w Cons.prems(2)]
  have h: "1 + toc_page l = p \<Longrightarrow> pg_height (pages ! (1 + toc_page l)) = pg_height (pdf ! p)"
    using without_annots_height[OF Cons.prems(1)] Cons.prems(2) len by simp
  have step: "pg_annots (link_step lib_raises pages l ! p) =
        pg_annots (pages ! p) @
        (if 1 + toc_page l = p \<and> link_in_range (length pdf) l \<and>
            \<not> lib_raises (flipped_annotation (pg_height (pdf ! p)) l)
         then [flipped_annotation (pg_height (pdf ! p)) l] else [])"
    using Cons.prems(2) len h by (auto simp: link_step_eq nth_add_annotation)
  show ?case using IH step by simp
qed

text \<open>
  C1. After the pass, page \<open>p\<close> carries its former annotations followed by one annotation
  for every record, in order, whose TOC-page index \<open>1 + toc_page\<close> is \<open>p\<close>, whose two
  indices (\<open>1 + toc_page\<close> and \<open>target_page - 1\<close>) are below the page count, and for which
  the library did not raise; the annotation aims at \<open>target_page - 1\<close> and its rectangle
  is \<open>(x1, H - y2, x2, H - y1)\<close> with \<open>H\<close> the height of page \<open>p\<close>. For the y-range
  \<open>[100, 115]\<close> and \<open>H = 841.89\<close> the result is \<open>[726.89, 741.89]\<close>.
\<close>

theorem link_annotations_attached:
  assumes "p < length pdf"
  shows "pg_annots (add_links_to_pdf lib_raises (Some links) pdf ! p) =
           pg_annots (pdf ! p) @
           map (flipped_annotation (pg_height (pdf ! p)))
             (filter (\<lambda>l. 1 + toc_page l = p \<and> link_in_range (length pdf) l \<and>
                           \<not> lib_raises (flipped_annotation (pg_height (pdf ! p)) l)) links) \<and>
         la_rect (flipped_annotation 841.89 \<lparr> rect = (x1, 100, x2, 115), target_page = t,
                                              toc_page = k \<rparr>) = (x1, 726.89, x2, 741.89)"
  using foldl_link_step_annots[OF refl assms, of lib_raises links]
  by (auto simp: add_links_to_pdf_def flipped_annotation_def)

theorem link_annotations_attached_witness:
  "Suc 0 < length sample_pdf \<and>
   pg_annots (add_links_to_pdf (\<lambda>a. False) (Some sample_links) sample_pdf ! Suc 0) =
     [\<lparr> la_rect = (50, A4_height - 115, 545, A4_height - 100), la_target_page_index = 2 \<rparr>]"
  using link_annotations_attached[of "Suc 0" sample_pdf "\<lambda>a. False" sample_links]
  by (simp add: sample_pdf_def sample_links_def blank_page_def link_in_range_def
      flipped_annotation_def)

lemma foldl_link_step_filter:
  "length pages = n \<Longrightarrow>
   foldl (link_step lib_raises) pages ls =
   foldl (link_step lib_raises) pages (filter (link_in_range n) ls)"
proof (induction ls arbitrary: pages)
  case Nil
  then show ?case by simp
next
  case (Cons l ls)
  show ?case
  proof (cases "link_in_range n l")
    case True
    with Cons show ?thesis by (simp add: length_link_step)
  next
    case False
    with Cons.prems have "link_step lib_raises pages l = pages" by (simp add: link_step_eq)
    with Cons False show ?thesis by simp
  qed
qed

text \<open>
  C8. The pass returns as many pages as it was given, and the pages are the input's pages
  in the same order once annotations are set aside; records whose indices are out of
  range change nothing: the pass gives the same result as on the in-range records alone.
\<close>

theorem link_pass_keeps_pages:
  "length (add_links_to_pdf lib_raises links pdf) = length pdf \<and>
   map without_annots (add_links_to_pdf lib_raises links pdf) = map without_annots pdf \<and>
   add_links_to_pdf lib_raises (Some ls) pdf =
     add_links_to_pdf lib_raises (Some (filter (link_in_range (length pdf)) ls)) pdf"
proof (intro conjI)
  show "length (add_links_to_pdf lib_raises links pdf) = length pdf"
    by (simp add: add_links_to_pdf_def length_foldl_link_step split: option.splits)
  show "map without_annots (add_links_to_pdf lib_raises links pdf) = map without_annots pdf"
    by (simp add: add_links_to_pdf_def without_annots_foldl_link_step split: option.splits)
  have "foldl (link_step lib_raises) pdf ls =
        foldl (link_step lib_raises) pdf (filter (link_in_range (length pdf)) ls)"
    by (rule foldl_link_step_filter) simp
  then show "add_links_to_pdf lib_raises (Some ls) pdf =
     add_links_to_pdf lib_raises (Some (filter (link_in_range (length pdf)) ls)) pdf"
    by (cases "filter (link_in_range (length pdf)) ls = []")
       (auto simp: add_links_to_pdf_def)
qed

section \<open>Claims about bookmarks and group headers\<close>

lemma remdups_adj_snoc:
  "remdups_adj (xs @ [x]) =
     (if xs = [] \<or> last xs \<noteq> x then remdups_adj xs @ [x] else remdups_adj xs)"
proof (cases xs rule: rev_cases)
  case Nil
  then show ?thesis by simp
next
  case (snoc ys y)
  then show ?thesis using remdups_adj_append_two[of ys y x] by auto
qed

lemma titles_bm_document:
  "map on_title (bm_outline (bm_document st info)) = map on_title (bm_outline st)"
proof (cases "bm_person_bookmark st")
  case None
  then show ?thesis by (simp add: bm_document_def)
next
  case (Some i)
  show ?thesis
  proof (cases "i < length (bm_outline st)")
    case True
    then show ?thesis using Some
      by (intro nth_equalityI) (auto simp: bm_document_def Let_def nth_list_update)
  next
    case False
    then have "length (bm_outline st) \<le> i" by simp
    then show ?thesis using Some by (simp add: bm_document_def Let_def list_update_beyond)
  qed
qed

lemma person_bm_document:
  "bm_current_person (bm_document st info) = bm_current_person st"
  by (simp add: bm_document_def Let_def split: option.splits)

lemma bm_invariant:
  "bm_current_person (foldl bm_step bm_init es) =
     (if es = [] then None else Some (folder (last es))) \<and>
   map on_title (bm_outline (foldl bm_step bm_init es)) =
     map on_title [title_bookmark, toc_bookmark] @ remdups_adj (map folder es)"
proof (induction es rule: rev_induct)
  case Nil
  then show ?case by (simp add: bm_init_def)
next
  case (snoc e es)
  let ?st = "foldl bm_step bm_init es"
  from snoc have cp: "bm_current_person ?st = (if es = [] then None else Some (folder (last es)))"
    and ti: "map on_title (bm_outline ?st) =
             map on_title [title_bookmark, toc_bookmark] @ remdups_adj (map folder es)"
    by simp_all
  have g1: "bm_current_person (bm_group ?st e) = Some (folder e)"
    by (simp add: bm_group_def Let_def)
  have g2: "map on_title (bm_outline (bm_group ?st e)) =
            map on_title [title_bookmark, toc_bookmark] @ remdups_adj (map folder (es @ [e]))"
    unfolding map_append list.map remdups_adj_snoc
    using cp ti by (auto simp: bm_group_def Let_def last_map)
  have f: "foldl bm_step bm_init (es @ [e]) = bm_document (bm_group ?st e) e"
    by (simp add: bm_step_def[of ?st e])
  show ?case
    unfolding f titles_bm_document person_bm_document g1 g2 by simp
qed

lemma headers_toc_entry: "toc_headers (toc_entry st info) = toc_headers st"
  by (simp add: toc_entry_def Let_def)

lemma person_toc_entry: "toc_current_person (toc_entry st info) = toc_current_person st"
  by (simp add: toc_entry_def Let_def)

lemma toc_invariant:
  "toc_current_person (foldl toc_step toc_init es) =
     (if es = [] then None else Some (folder (last es))) \<and>
   map header_text (toc_headers (foldl toc_step toc_init es)) = remdups_adj (map folder es)"
proof (induction es rule: rev_induct)
  case Nil
  then show ?case by (simp add: toc_init_def)
next
  case (snoc e es)
  let ?st = "foldl toc_step toc_init es"
  from snoc have cp: "toc_current_person ?st = (if es = [] then None else Some (folder (last es)))"
    and ti: "map header_text (toc_headers ?st) = remdups_adj (map folder es)"
    by simp_all
  have g1: "toc_current_person (toc_header ?st e) = Some (folder e)"
    by (simp add: toc_header_def Let_def)
  have g2: "map header_text (toc_headers (toc_header ?st e)) = remdups_adj (map folder (es @ [e]))"
    unfolding map_append list.map remdups_adj_snoc
    using cp ti by (auto simp: toc_header_def Let_def last_map header_text_def)
  have f: "foldl toc_step toc_init (es @ [e]) = toc_entry (toc_header ?st e) e"
    by (simp add: toc_step_def[of ?st e])
  show ?case
    unfolding f headers_toc_entry person_toc_entry g1 g2 by simp
qed

lemma group_titles: "map on_title (group_nodes es) = remdups_adj (map folder es)"
proof -
  have "map on_title (drop 2 (bm_outline (foldl bm_step bm_init es))) =
        drop 2 (map on_title (bm_outline (foldl bm_step bm_init es)))"
    by (simp add: drop_map)
  also have "\<dots> = remdups_adj (map folder es)"
    using bm_invariant[of es] by simp
  finally show ?thesis by (simp add: group_nodes_def add_bookmarks_to_pdf_def)
qed

lemma header_titles:
  "map header_text (toc_headers (create_table_of_contents es)) = remdups_adj (map folder es)"
  using toc_invariant[of es] by (simp add: create_table_of_contents_def)

text \<open>
  C10. The titles of the group-level bookmark nodes, and the texts of the group headers
  of the table of contents, are the folder labels of the entries with every run of equal
  consecutive labels collapsed to one. Appending an entry adds a node (a header) exactly
  when the list was empty or the entry's label differs from the label before it, so a
  label that comes back after another one gets a second node.
\<close>

theorem group_nodes_follow_label_changes:
  "map on_title (group_nodes es) = remdups_adj (map folder es) \<and>
   map header_text (toc_headers (create_table_of_contents es)) = remdups_adj (map folder es) \<and>
   length (group_nodes (es @ [e])) =
     length (group_nodes es) + (if es = [] \<or> folder (last es) \<noteq> folder e then 1 else 0) \<and>
   length (toc_headers (create_table_of_contents (es @ [e]))) =
     length (toc_headers (create_table_of_contents es)) +
     (if es = [] \<or> folder (last es) \<noteq> folder e then 1 else 0)"
proof -
  have r: "length (remdups_adj (map folder (es @ [e]))) =
           length (remdups_adj (map folder es)) +
           (if es = [] \<or> folder (last es) \<noteq> folder e then 1 else 0)"
    unfolding map_append list.map remdups_adj_snoc by (auto simp: last_map)
  have a: "length (group_nodes xs) = length (remdups_adj (map folder xs))" for xs
    using group_titles[of xs] by (metis length_map)
  have b: "length (toc_headers (create_table_of_contents xs)) =
           length (remdups_adj (map folder xs))" for xs
    using header_titles[of xs] by (metis length_map)
  show ?thesis using group_titles header_titles r a b by simp
qed

theorem group_nodes_follow_label_changes_witness:
  "([entry_anne_cni, entry_bob_bail] = [] \<or>
      folder (last [entry_anne_cni, entry_bob_bail]) \<noteq> folder entry_anne_quittance) \<and>
   map on_title (group_nodes ([entry_anne_cni, entry_bob_bail] @ [entry_anne_quittance])) =
     [''Anne'', ''Bob'', ''Anne''] \<and>
   length (group_nodes ([entry_anne_cni, entry_bob_bail] @ [entry_anne_quittance])) =
     length (group_nodes [entry_anne_cni, entry_bob_bail]) + 1"
  using group_nodes_follow_label_changes
          [of "[entry_anne_cni, entry_bob_bail] @ [entry_anne_quittance]" entry_anne_cni]
        group_nodes_follow_label_changes
          [of "[entry_anne_cni, entry_bob_bail]" entry_anne_quittance]
  by (simp add: entry_anne_cni_def entry_bob_bail_def entry_anne_quittance_def)

end
